theory Spec2Isabelle
  imports Complex_Main "HOL-Library.Word"
begin

section \<open>The ORP data logger sketch: data\<close>

text \<open>
  The sketch keeps its state in global variables and talks to four devices: the button
  ladder on analog pin A0, the ORP circuit on a software serial port, the hardware serial
  port (the OpenLog recorder) and the 16x2 LCD. The model threads one record through every
  function: the globals, the inputs still to come and the outputs produced so far.

  Numbers: \<open>byte\<close> is 8 bits, \<open>unsigned int\<close> 16 bits, \<open>long\<close> and \<open>unsigned long\<close>
  32 bits on the AVR. A \<open>long\<close> is kept as a 32-bit word read in two's complement
  (\<open><s\<close>, \<open>sint\<close>). A \<open>float\<close> is modelled by a real number: rounding is not modelled,
  and dividing by a zero counter gives 0 here where the hardware gives infinity or NaN
  (the counter of a running sketch is never 0, as the section on its range shows).

  Not modelled: the delays, the backlight pin, and \<open>serialEvent\<close>, which the runtime calls
  between two calls of \<open>loop\<close> to pass a line from the PC on to the ORP circuit (it writes
  only to its own buffer and to the sensor port).
\<close>

type_synonym byte = "8 word"

datatype button = BUTTON_NONE | RIGHT | UP | DOWN | LEFT | SELECT

text \<open>What \<open>rtc.now()\<close> returns: the calendar fields and the Unix time of the same instant.\<close>

record DateTime =
  year :: "16 word"
  month :: byte
  day :: byte
  hour :: byte
  minute :: byte
  second :: byte
  unixtime :: "32 word"

text \<open>One call of a \<open>print\<close> method, by the type of its argument; \<open>PFloat v d\<close> is
  \<open>print(v, d)\<close>, a float with \<open>d\<close> decimals.\<close>

datatype printed = PStr string | PChar char | PInt int | PFloat real nat

datatype lcd_cmd = Begin nat nat | Clear | SetCursor nat nat | Print printed

text \<open>
  Library behaviour the sketch relies on and the repository does not contain:
  \<open>atof\<close> is the C library's conversion of the received text, and \<open>postdec_assign\<close> is the
  value that the statement \<open>orpPos = orpPos--\<close> leaves in \<open>orpPos\<close>. The statement modifies
  \<open>orpPos\<close> twice without sequencing, so the language leaves its result to the compiler
  (from C++17 on it is the old value). Both are parameters of the model.
\<close>

record platform =
  atof :: "string \<Rightarrow> real"
  postdec_assign :: "byte \<Rightarrow> byte"

record state =
  buttonJustPressed :: bool
  buttonJustReleased :: bool
  buttonWas :: button
  sensor_data :: string
  ORP :: real
  ORPvalue :: real
  avgORP :: real
  string_received :: byte
  logData :: bool
  nextDataPoint :: "32 word"
  logFreq :: "32 word"
  received_from_sensor :: byte
  counter :: byte
  logPin :: bool
  adc_in :: "nat \<Rightarrow> 16 word"
  adc_n :: nat
  orp_rx :: "nat \<Rightarrow> string option"
  orp_n :: nat
  orp_tx :: string
  serial_tx :: "printed list"
  lcd :: "lcd_cmd list"

text \<open>
  \<open>adc_in s k\<close> is the result of the \<open>k\<close>-th \<open>analogRead(BUTTON_ADC)\<close> and \<open>adc_n s\<close> counts the
  reads made so far. \<open>orp_rx s k\<close> is what the \<open>k\<close>-th call of \<open>getORPdata\<close> finds on the
  software serial port: \<open>None\<close> when \<open>orpSerial.available()\<close> is 0, \<open>Some l\<close> when
  \<open>readBytesUntil(13, sensor_data, 20)\<close> stores the bytes \<open>l\<close>. The buffer has 20 bytes and
  the sketch writes the terminator at index \<open>length l\<close>, so the model covers \<open>length l < 20\<close>
  (and \<open>l\<close> without a zero byte); \<open>sensor_data\<close> is then the C string \<open>l\<close>.
\<close>

definition CR :: char where
  "CR = CHR 0x0D"

definition LF :: char where
  "LF = CHR 0x0A"

definition lcd_do :: "lcd_cmd list \<Rightarrow> state \<Rightarrow> state" where
  "lcd_do cs s = s\<lparr>lcd := lcd s @ cs\<rparr>"

definition orp_print :: "string \<Rightarrow> state \<Rightarrow> state" where
  "orp_print str s = s\<lparr>orp_tx := orp_tx s @ str\<rparr>"

text \<open>The globals as the sketch initialises them, before \<open>setup()\<close>.\<close>

definition power_on :: "(nat \<Rightarrow> 16 word) \<Rightarrow> (nat \<Rightarrow> string option) \<Rightarrow> state" where
  "power_on adc rx =
     \<lparr>buttonJustPressed = False, buttonJustReleased = False, buttonWas = BUTTON_NONE,
      sensor_data = [], ORP = 0, ORPvalue = 0, avgORP = 0, string_received = 0,
      logData = False, nextDataPoint = 0, logFreq = 5, received_from_sensor = 0,
      counter = 1, logPin = False, adc_in = adc, adc_n = 0, orp_rx = rx, orp_n = 0,
      orp_tx = [], serial_tx = [], lcd = []\<rparr>"

definition setup_sketch :: "state \<Rightarrow> state" where
  "setup_sketch s =
     lcd_do [Begin 16 2, Print (PStr ''Starting up...'')]
       (orp_print (CHR ''e'' # [CR]) (orp_print (CHR ''e'' # [CR]) (s\<lparr>logPin := False\<rparr>)))"

section \<open>Buttons\<close>

definition RIGHT_10BIT :: "16 word" where "RIGHT_10BIT = 0"
definition UP_10BIT :: "16 word" where "UP_10BIT = 145"
definition DOWN_10BIT :: "16 word" where "DOWN_10BIT = 329"
definition LEFT_10BIT :: "16 word" where "LEFT_10BIT = 505"
definition SELECT_10BIT :: "16 word" where "SELECT_10BIT = 741"
definition HYSTERESIS :: "16 word" where "HYSTERESIS = 10"

text \<open>The chain of comparisons of \<open>ReadButtons\<close> on the voltage read.\<close>

definition button_of :: "16 word \<Rightarrow> button" where
  "button_of buttonVoltage =
     (if buttonVoltage < RIGHT_10BIT + HYSTERESIS then RIGHT
      else if buttonVoltage \<ge> UP_10BIT - HYSTERESIS \<and> buttonVoltage \<le> UP_10BIT + HYSTERESIS
        then UP
      else if buttonVoltage \<ge> DOWN_10BIT - HYSTERESIS \<and> buttonVoltage \<le> DOWN_10BIT + HYSTERESIS
        then DOWN
      else if buttonVoltage \<ge> LEFT_10BIT - HYSTERESIS \<and> buttonVoltage \<le> LEFT_10BIT + HYSTERESIS
        then LEFT
      else if buttonVoltage \<ge> SELECT_10BIT - HYSTERESIS \<and> buttonVoltage \<le> SELECT_10BIT + HYSTERESIS
        then SELECT
      else BUTTON_NONE)"

definition ReadButtons :: "state \<Rightarrow> button \<times> state" where
  "ReadButtons s =
     (let buttonVoltage = adc_in s (adc_n s);
          s0 = s\<lparr>adc_n := adc_n s + 1\<rparr>;
          b = button_of buttonVoltage;
          s1 = (if buttonWas s0 = BUTTON_NONE \<and> b \<noteq> BUTTON_NONE
                then s0\<lparr>buttonJustPressed := True, buttonJustReleased := False\<rparr> else s0);
          s2 = (if buttonWas s1 \<noteq> BUTTON_NONE \<and> b = BUTTON_NONE
                then s1\<lparr>buttonJustPressed := False, buttonJustReleased := True\<rparr> else s1)
      in (b, s2\<lparr>buttonWas := b\<rparr>))"

section \<open>Clock display and log records\<close>

definition print_padded_digit :: "int \<Rightarrow> lcd_cmd list" where
  "print_padded_digit v = (if v < 10 then [Print (PChar CHR ''0'')] else []) @ [Print (PInt v)]"

definition print_date :: "DateTime \<Rightarrow> lcd_cmd list" where
  "print_date now =
     [SetCursor 11 0] @ print_padded_digit (uint (month now)) @ [Print (PChar CHR ''/'')]
       @ print_padded_digit (uint (day now))"

definition print_time :: "DateTime \<Rightarrow> lcd_cmd list" where
  "print_time now =
     [SetCursor 0 0] @ print_padded_digit (uint (hour now)) @ [Print (PChar CHR '':'')]
       @ print_padded_digit (uint (minute now)) @ [Print (PChar CHR '':'')]
       @ print_padded_digit (uint (second now))"

definition padded :: "byte \<Rightarrow> printed list" where
  "padded v = (if v < 10 then [PChar CHR ''0''] else []) @ [PInt (uint v)]"

text \<open>The calls of \<open>Serial.print\<close> that \<open>LogData\<close> makes: one record, ended by a line feed.\<close>

definition log_record :: "real \<Rightarrow> DateTime \<Rightarrow> printed list" where
  "log_record v now =
     padded (month now) @ [PChar CHR ''/''] @ padded (day now) @ [PChar CHR ''/'']
       @ [PInt (uint (year now))] @ [PChar CHR '',''] @ padded (hour now) @ [PChar CHR '':'']
       @ padded (minute now) @ [PChar CHR '':''] @ padded (second now) @ [PChar CHR '','']
       @ [PFloat v 2] @ [PChar LF]"

definition LogData :: "real \<Rightarrow> DateTime \<Rightarrow> state \<Rightarrow> state" where
  "LogData v now s = s\<lparr>serial_tx := serial_tx s @ log_record v now\<rparr>"

section \<open>Sensor and running average\<close>

text \<open>\<open>getORPdata\<close>; the assignment \<open>string_received = 0\<close> after its \<open>return\<close> is never
  executed.\<close>

definition getORPdata :: "platform \<Rightarrow> state \<Rightarrow> real \<times> state" where
  "getORPdata P s =
     (let s1 = (case orp_rx s (orp_n s) of
                  None \<Rightarrow> s
                | Some l \<Rightarrow> s\<lparr>received_from_sensor := of_nat (length l), sensor_data := l,
                              string_received := 1\<rparr>);
          s2 = orp_print (CHR ''R'' # [CR]) (s1\<lparr>orp_n := orp_n s1 + 1\<rparr>);
          s3 = (if string_received s2 = 1 then s2\<lparr>ORP := atof P (sensor_data s2)\<rparr> else s2)
      in (ORP s3, s3))"

text \<open>The two statements of the branch \<open>counter < 4\<close>, for the reading \<open>r\<close> that
  \<open>getORPdata\<close> returned.\<close>

definition fold_reading :: "real \<Rightarrow> state \<Rightarrow> state" where
  "fold_reading r s =
     (let s1 = s\<lparr>avgORP := (avgORP s + r) / real (unat (counter s))\<rparr>
      in s1\<lparr>counter := counter s1 + 1\<rparr>)"

definition publish :: "state \<Rightarrow> state" where
  "publish s = (let s1 = s\<lparr>counter := 1\<rparr> in s1\<lparr>ORPvalue := avgORP s1\<rparr>)"

definition average :: "platform \<Rightarrow> state \<Rightarrow> state" where
  "average P s =
     (if counter s < 4 then (case getORPdata P s of (r, s1) \<Rightarrow> fold_reading r s1)
      else publish s)"

section \<open>Display of the published value\<close>

definition orpPos_of :: "platform \<Rightarrow> real \<Rightarrow> byte" where
  "orpPos_of P v =
     (let orpPos = (if \<bar>v / 1000\<bar> \<ge> 1 then 9
                    else if \<bar>v / 100\<bar> \<ge> 1 then 10
                    else if \<bar>v / 10\<bar> \<ge> 1 then 11
                    else 12)
      in if v < 0 then postdec_assign P orpPos else orpPos)"

definition showORP :: "platform \<Rightarrow> state \<Rightarrow> state" where
  "showORP P s =
     lcd_do [SetCursor (unat (orpPos_of P (ORPvalue s))) 1, Print (PFloat (ORPvalue s) 0),
             SetCursor 14 1, Print (PStr ''mV'')] s"

section \<open>Logging\<close>

text \<open>The block of \<open>loop\<close> that checks whether a data point is due.\<close>

definition logCheck :: "DateTime \<Rightarrow> state \<Rightarrow> state" where
  "logCheck now s =
     (if logData s then
        (let s1 = lcd_do [SetCursor 0 1, Print (PStr ''Logging'')] s
         in if unixtime now \<ge> nextDataPoint s1
            then (LogData (ORPvalue s1) now s1)\<lparr>nextDataPoint := unixtime now + logFreq s1\<rparr>
            else s1)
      else s)"

text \<open>The case \<open>SELECT\<close> of the switch in \<open>loop\<close>.\<close>

definition toggleLogging :: "DateTime \<Rightarrow> state \<Rightarrow> state" where
  "toggleLogging now s =
     (let s1 = s\<lparr>logData := \<not> logData s\<rparr>
      in if logData s1
         then (LogData (ORPvalue s1) now (s1\<lparr>logPin := True\<rparr>))
                \<lparr>nextDataPoint := unixtime now + logFreq s1\<rparr>
         else s1\<lparr>logPin := False\<rparr>)"

section \<open>The two blocking sub-loops\<close>

text \<open>
  C's \<open>do body while (again)\<close>: the body runs, then the test decides on what the body
  left (here the button it sampled). A loop that never stops has the value \<open>None\<close>.
\<close>

partial_function (option) do_while :: "('s \<Rightarrow> 'b \<times> 's) \<Rightarrow> ('b \<Rightarrow> bool) \<Rightarrow> 's \<Rightarrow> 's option" where
  "do_while body again s =
     (case body s of (b, s') \<Rightarrow> if again b then do_while body again s' else Some s')"

definition calibration_command :: "button \<Rightarrow> string" where
  "calibration_command b =
     (if b = UP then CHR ''+'' # [CR] else [])
       @ (if b = DOWN then CHR ''-'' # [CR] else [])
       @ (if b = SELECT then CHR ''X'' # [CR] else [])"

definition calibration_cycle :: "platform \<Rightarrow> state \<Rightarrow> button \<times> state" where
  "calibration_cycle P s =
     (case ReadButtons (showORP P (average P s)) of
        (b, s1) \<Rightarrow> (b, orp_print (calibration_command b) s1))"

definition calibration_entry :: "state \<Rightarrow> state" where
  "calibration_entry s =
     orp_print (CHR ''C'' # [CR])
       (lcd_do [Clear, SetCursor 0 0, Print (PStr ''Calibration''), SetCursor 0 1,
                Print (PStr ''LFT=EXIT'')] s)"

definition startCalibration :: "platform \<Rightarrow> state \<Rightarrow> state option" where
  "startCalibration P s =
     map_option (orp_print (CHR ''E'' # [CR]))
       (do_while (calibration_cycle P) (\<lambda>b. b \<noteq> LEFT) (calibration_entry s))"

definition setLogFreq_cycle :: "state \<Rightarrow> button \<times> state" where
  "setLogFreq_cycle s =
     (case ReadButtons s of
        (b, s0) \<Rightarrow>
          (let s1 = (if b = UP then s0\<lparr>logFreq := logFreq s0 + 5\<rparr> else s0);
               s2 = (if b = DOWN then s1\<lparr>logFreq := logFreq s1 - 5\<rparr> else s1);
               s3 = (if logFreq s2 <s 5 then s2\<lparr>logFreq := 5\<rparr> else s2)
           in (b, lcd_do [Clear, SetCursor 0 0, Print (PStr ''Set log freq''), SetCursor 0 1,
                          Print (PStr ''RT=EXIT''), SetCursor 13 1, Print (PStr ''sec''),
                          (if logFreq s3 <s 10 then SetCursor 11 1
                           else if logFreq s3 <s 100 then SetCursor 10 1
                           else SetCursor 9 1),
                          Print (PInt (sint (logFreq s3)))] s3)))"

definition setLogFreq :: "state \<Rightarrow> state option" where
  "setLogFreq s = do_while setLogFreq_cycle (\<lambda>b. b \<noteq> RIGHT) s"

section \<open>The main loop\<close>

text \<open>
  The switch of \<open>loop\<close>. The statements that reset the two edge flags stand inside the
  switch block after the \<open>break\<close> of \<open>default\<close>, where no case label leads: they are
  never executed, and no case of the model contains them.
\<close>

definition dispatch :: "platform \<Rightarrow> DateTime \<Rightarrow> button \<Rightarrow> state \<Rightarrow> state option" where
  "dispatch P now b s =
     (case b of
        BUTTON_NONE \<Rightarrow> Some s
      | RIGHT \<Rightarrow> startCalibration P s
      | UP \<Rightarrow> Some s
      | DOWN \<Rightarrow> Some s
      | LEFT \<Rightarrow> setLogFreq s
      | SELECT \<Rightarrow> Some (toggleLogging now s))"

text \<open>\<open>loop\<close> up to the switch: clock, button sample, feedback area.\<close>

definition poll :: "DateTime \<Rightarrow> state \<Rightarrow> button \<times> state" where
  "poll now s =
     (case ReadButtons (lcd_do ([Clear] @ print_date now @ print_time now) s) of
        (b, s1) \<Rightarrow>
          (b, if buttonJustPressed s1 \<or> buttonJustReleased s1
              then lcd_do [SetCursor 0 1, Print (PStr ''       '')] s1 else s1))"

text \<open>\<open>loop\<close> after the switch: average, display, logging check.\<close>

definition finish :: "platform \<Rightarrow> DateTime \<Rightarrow> state \<Rightarrow> state" where
  "finish P now s = logCheck now (showORP P (average P s))"

definition loop :: "platform \<Rightarrow> DateTime \<Rightarrow> state \<Rightarrow> state option" where
  "loop P now s =
     (case poll now s of (b, s1) \<Rightarrow> map_option (finish P now) (dispatch P now b s1))"

text \<open>The runtime calls \<open>loop\<close> again and again; \<open>run_loop\<close> runs one cycle for each clock
  reading of the list.\<close>

fun run_loop :: "platform \<Rightarrow> DateTime list \<Rightarrow> state \<Rightarrow> state option" where
  "run_loop P [] s = Some s"
| "run_loop P (now # nows) s = Option.bind (loop P now s) (run_loop P nows)"

text \<open>The state after \<open>k\<close> passes through a loop body.\<close>

primrec cycles :: "('s \<Rightarrow> 'b \<times> 's) \<Rightarrow> nat \<Rightarrow> 's \<Rightarrow> 's" where
  "cycles body 0 s = s"
| "cycles body (Suc k) s = cycles body k (snd (body s))"

text \<open>The button that the \<open>j\<close>-th coming call of \<open>ReadButtons\<close> returns.\<close>

definition sampled :: "state \<Rightarrow> nat \<Rightarrow> button" where
  "sampled s j = button_of (adc_in s (adc_n s + j))"

definition counter_ok :: "state \<Rightarrow> bool" where
  "counter_ok s = (counter s = 1 \<or> counter s = 2 \<or> counter s = 3 \<or> counter s = 4)"

section \<open>Concrete inputs\<close>

text \<open>A board after \<open>setup()\<close> with the given button voltages and sensor input, a compiler
  that keeps the old value in \<open>orpPos = orpPos--\<close> with an \<open>atof\<close> that knows one text, and
  a clock reading.\<close>

definition booted :: "(nat \<Rightarrow> 16 word) \<Rightarrow> (nat \<Rightarrow> string option) \<Rightarrow> state" where
  "booted adc rx = setup_sketch (power_on adc rx)"

text \<open>No button pressed (the ladder reads 1023) and a silent sensor.\<close>

definition idle_board :: state where
  "idle_board = booted (\<lambda>_. 1023) (\<lambda>_. None)"

definition a_platform :: platform where
  "a_platform = \<lparr>atof = (\<lambda>l. if l = ''123.45'' then 12345 / 100 else 0),
                  postdec_assign = (\<lambda>orpPos. orpPos)\<rparr>"

definition a_time :: DateTime where
  "a_time = \<lparr>year = 2014, month = 3, day = 9, hour = 12, minute = 30, second = 5,
              unixtime = 1394368205\<rparr>"

section \<open>Buttons: the voltage bands\<close>

lemmas levels =
  RIGHT_10BIT_def UP_10BIT_def DOWN_10BIT_def LEFT_10BIT_def SELECT_10BIT_def HYSTERESIS_def

text \<open>The bands in numbers. The band of \<open>RIGHT\<close> ends below 10; the other four include both
  ends.\<close>

lemma button_of_bands:
  "button_of v =
     (if v < 10 then RIGHT
      else if 135 \<le> v \<and> v \<le> 155 then UP
      else if 319 \<le> v \<and> v \<le> 339 then DOWN
      else if 495 \<le> v \<and> v \<le> 515 then LEFT
      else if 731 \<le> v \<and> v \<le> 751 then SELECT
      else BUTTON_NONE)"
  by (simp add: button_of_def levels)

lemma ReadButtons_button: "fst (ReadButtons s) = button_of (adc_in s (adc_n s))"
  by (simp add: ReadButtons_def Let_def)

text \<open>
  Claim C4 says that every voltage within 10 counts of a button's level gives that button.
  The voltage 10 is within 10 counts of the level 0 of \<open>RIGHT\<close>, and \<open>ReadButtons\<close> returns
  \<open>BUTTON_NONE\<close> for it: the test for \<open>RIGHT\<close> is \<open>buttonVoltage < RIGHT_10BIT + HYSTERESIS\<close>,
  where the tests of the other four buttons use \<open>\<le>\<close> at the upper end.
\<close>

theorem ReadButtons_at_10:
  "fst (ReadButtons (booted (\<lambda>_. 10) (\<lambda>_. None))) = BUTTON_NONE"
  by (simp add: ReadButtons_button button_of_bands booted_def setup_sketch_def power_on_def
      lcd_do_def orp_print_def)

section \<open>The running average\<close>

text \<open>
  Claim C1 gives 5, 12.5 and 14.17 for the readings 10, 20, 30 folded into a fresh
  average. The sketch divides by the counter before it increments it, so the first fold
  divides by 1: the first value is 10, not 5.
\<close>

theorem fold_first_reading:
  "avgORP (fold_reading 10 idle_board) \<noteq> 5"
  by (simp add: fold_reading_def idle_board_def booted_def setup_sketch_def power_on_def
      lcd_do_def orp_print_def Let_def)

text \<open>
  Claim C1 as the sketch computes it: from a fresh average (0, counter 1) the readings 10,
  20, 30 give 10 (counter 2), 15 (counter 3) and 15 (counter 4); the next averaging step
  folds nothing, sets the counter back to 1 and publishes 15.
\<close>

theorem fold_10_20_30:
  assumes "avgORP s = 0" and "counter s = 1"
  shows "avgORP (fold_reading 10 s) = 10 \<and> counter (fold_reading 10 s) = 2
    \<and> avgORP (fold_reading 20 (fold_reading 10 s)) = 15
    \<and> counter (fold_reading 20 (fold_reading 10 s)) = 3
    \<and> avgORP (fold_reading 30 (fold_reading 20 (fold_reading 10 s))) = 15
    \<and> counter (fold_reading 30 (fold_reading 20 (fold_reading 10 s))) = 4
    \<and> average P (fold_reading 30 (fold_reading 20 (fold_reading 10 s)))
        = (fold_reading 30 (fold_reading 20 (fold_reading 10 s)))\<lparr>counter := 1, ORPvalue := 15\<rparr>"
  using assms by (simp add: fold_reading_def average_def publish_def Let_def)

text \<open>The same on the board as \<open>setup()\<close> leaves it.\<close>

theorem fold_10_20_30_fresh:
  "avgORP idle_board = 0 \<and> counter idle_board = 1
   \<and> avgORP (fold_reading 10 idle_board) = 10
   \<and> avgORP (fold_reading 20 (fold_reading 10 idle_board)) = 15
   \<and> avgORP (fold_reading 30 (fold_reading 20 (fold_reading 10 idle_board))) = 15
   \<and> ORPvalue (average a_platform
        (fold_reading 30 (fold_reading 20 (fold_reading 10 idle_board)))) = 15
   \<and> counter (average a_platform
        (fold_reading 30 (fold_reading 20 (fold_reading 10 idle_board)))) = 1"
proof -
  have fresh: "avgORP idle_board = 0" "counter idle_board = 1"
    by (simp_all add: idle_board_def booted_def setup_sketch_def power_on_def lcd_do_def
        orp_print_def)
  from fold_10_20_30 [OF fresh, of a_platform] fresh show ?thesis
    by simp
qed

section \<open>What each step touches\<close>

lemmas steps =
  ReadButtons_def getORPdata_def fold_reading_def publish_def average_def showORP_def
  logCheck_def LogData_def toggleLogging_def lcd_do_def orp_print_def Let_def

lemmas fresh_board = idle_board_def booted_def setup_sketch_def power_on_def

lemma average_adc: "adc_n (average P s) = adc_n s \<and> adc_in (average P s) = adc_in s"
  by (simp add: steps split: option.split)

lemma average_tx:
  "orp_tx (average P s) = orp_tx s @ (if counter s < 4 then CHR ''R'' # [CR] else [])"
  by (simp add: steps split: option.split)

lemma poll_button: "fst (poll now s) = sampled s 0"
  by (simp add: poll_def sampled_def steps split: prod.split)

lemma poll_frame:
  "adc_n (snd (poll now s)) = Suc (adc_n s) \<and> adc_in (snd (poll now s)) = adc_in s
   \<and> logData (snd (poll now s)) = logData s \<and> counter (snd (poll now s)) = counter s"
  by (simp add: poll_def steps split: prod.split)

lemma finish_frame:
  "adc_n (finish P now s) = adc_n s \<and> adc_in (finish P now s) = adc_in s
   \<and> logData (finish P now s) = logData s"
  by (simp add: finish_def steps split: prod.split option.split)

lemma toggle_frame:
  "adc_n (toggleLogging now s) = adc_n s \<and> adc_in (toggleLogging now s) = adc_in s
   \<and> logData (toggleLogging now s) = (\<not> logData s)
   \<and> counter (toggleLogging now s) = counter s"
  by (simp add: steps)

section \<open>The sensor step without a response\<close>

text \<open>
  Claim C7 says that a cycle without a response line leaves the average and its counter
  unchanged. On the idle board no line ever arrives, and the averaging step of the first
  cycle moves the counter from 1 to 2.
\<close>

theorem silent_sensor_moves_counter:
  "orp_rx idle_board (orp_n idle_board) = None
   \<and> counter (average a_platform idle_board) \<noteq> counter idle_board"
  by (simp add: steps fresh_board)

text \<open>
  Claim C7 as the sketch behaves: when nothing is available on the sensor port,
  \<open>getORPdata\<close> keeps the receive buffer, sends the read command and returns a reading all
  the same (the text in the buffer converted again once a line has been received, the old
  \<open>ORP\<close> before that); there is no error path. While the counter is below 4 the averaging
  step folds that reading: the average becomes \<open>(avg + reading) / counter\<close> and the counter
  goes up by one.
\<close>

theorem no_response_folds_last_reading:
  assumes "orp_rx s (orp_n s) = None"
  shows "sensor_data (snd (getORPdata P s)) = sensor_data s
    \<and> orp_tx (snd (getORPdata P s)) = orp_tx s @ CHR ''R'' # [CR]
    \<and> fst (getORPdata P s) = (if string_received s = 1 then atof P (sensor_data s) else ORP s)
    \<and> (counter s < 4 \<longrightarrow>
         avgORP (average P s) = (avgORP s + fst (getORPdata P s)) / real (unat (counter s))
         \<and> counter (average P s) = counter s + 1)"
  using assms by (simp add: steps)

text \<open>On the idle board: the first cycle folds the reading 0 and counts it.\<close>

theorem no_response_on_idle_board:
  "orp_rx idle_board (orp_n idle_board) = None \<and> counter idle_board < 4
   \<and> fst (getORPdata a_platform idle_board) = 0
   \<and> avgORP (average a_platform idle_board) = 0
   \<and> counter (average a_platform idle_board) = 2"
proof -
  have none: "orp_rx idle_board (orp_n idle_board) = None"
    by (simp add: fresh_board lcd_do_def orp_print_def)
  have "counter idle_board = 1" "avgORP idle_board = 0" "ORP idle_board = 0"
    "string_received idle_board = 0"
    by (simp_all add: fresh_board lcd_do_def orp_print_def)
  with no_response_folds_last_reading [OF none, of a_platform] none show ?thesis
    by simp
qed

section \<open>Display of the published value: the cursor column\<close>

text \<open>
  Claim C3 puts a value with three integer digits, such as 123.45, at column 11. The
  sketch chooses column 10 for it.
\<close>

theorem three_digits_column:
  "lcd (showORP a_platform (idle_board\<lparr>ORPvalue := 12345 / 100, lcd := []\<rparr>))
     \<noteq> [SetCursor 11 1, Print (PFloat (12345 / 100) 0), SetCursor 14 1, Print (PStr ''mV'')]"
  by (simp add: showORP_def orpPos_of_def lcd_do_def a_platform_def)

text \<open>
  Claim C3 as the sketch behaves, for values that are not negative: the cursor goes to
  column 9 for a value of at least 1000, to column 10 from 100 on, to column 11 from 10 on
  and to column 12 below 10, in row 1; the value is printed there without decimals, and
  \<open>mV\<close> is printed at column 14. Both the main loop (\<open>finish\<close>) and the calibration loop
  (\<open>calibration_cycle\<close>) display the value with \<open>showORP\<close>.
\<close>

theorem showORP_columns:
  assumes "0 \<le> ORPvalue s"
  shows "lcd (showORP P s) = lcd s @
     [SetCursor (if 1000 \<le> ORPvalue s then 9 else if 100 \<le> ORPvalue s then 10
                 else if 10 \<le> ORPvalue s then 11 else 12) 1,
      Print (PFloat (ORPvalue s) 0), SetCursor 14 1, Print (PStr ''mV'')]"
  using assms by (simp add: showORP_def orpPos_of_def lcd_do_def Let_def)

text \<open>The value 123.45 on an empty display.\<close>

theorem showORP_columns_123:
  "(0::real) \<le> ORPvalue (idle_board\<lparr>ORPvalue := 12345 / 100, lcd := []\<rparr>)
   \<and> lcd (showORP a_platform (idle_board\<lparr>ORPvalue := 12345 / 100, lcd := []\<rparr>))
      = [SetCursor 10 1, Print (PFloat (12345 / 100) 0), SetCursor 14 1, Print (PStr ''mV'')]"
proof -
  have "(0::real) \<le> ORPvalue (idle_board\<lparr>ORPvalue := 12345 / 100, lcd := []\<rparr>)"
    by simp
  from showORP_columns [OF this, of a_platform] show ?thesis
    by simp
qed

section \<open>The periodic logging check\<close>

lemma log_record_one_line: "count_list (log_record v now) (PChar LF) = 1"
  by (simp add: log_record_def padded_def LF_def)

text \<open>What \<open>LogData\<close> prints, call by call: the date and the time with two digits for
  month, day, hour, minute and second, the value with two decimals, and a line feed.\<close>

lemma log_record_items:
  "log_record v now =
     (if month now < 10 then [PChar CHR ''0''] else [])
       @ [PInt (uint (month now)), PChar CHR ''/'']
       @ (if day now < 10 then [PChar CHR ''0''] else [])
       @ [PInt (uint (day now)), PChar CHR ''/'', PInt (uint (year now)), PChar CHR '','']
       @ (if hour now < 10 then [PChar CHR ''0''] else [])
       @ [PInt (uint (hour now)), PChar CHR '':'']
       @ (if minute now < 10 then [PChar CHR ''0''] else [])
       @ [PInt (uint (minute now)), PChar CHR '':'']
       @ (if second now < 10 then [PChar CHR ''0''] else [])
       @ [PInt (uint (second now)), PChar CHR '','', PFloat v 2, PChar (CHR 0x0A)]"
  by (simp add: log_record_def padded_def LF_def)

text \<open>
  Claim C2: while logging is active, a check before the due time emits nothing and keeps
  the due time. A check at or after the due time appends exactly one record to the serial
  output: month, day and year separated by slashes, a comma, hour, minute and second
  separated by colons, a comma, the published value with two decimals and a line feed, the
  only line feed among what is appended. It sets the due time to the current Unix time plus
  the log frequency (32-bit unsigned arithmetic, as in the sketch).
\<close>

theorem logCheck_due:
  assumes "logData s"
  shows "(unixtime now < nextDataPoint s \<longrightarrow>
            serial_tx (logCheck now s) = serial_tx s
            \<and> nextDataPoint (logCheck now s) = nextDataPoint s)
    \<and> (nextDataPoint s \<le> unixtime now \<longrightarrow>
            serial_tx (logCheck now s) = serial_tx s
              @ (if month now < 10 then [PChar CHR ''0''] else [])
              @ [PInt (uint (month now)), PChar CHR ''/'']
              @ (if day now < 10 then [PChar CHR ''0''] else [])
              @ [PInt (uint (day now)), PChar CHR ''/'', PInt (uint (year now)), PChar CHR '','']
              @ (if hour now < 10 then [PChar CHR ''0''] else [])
              @ [PInt (uint (hour now)), PChar CHR '':'']
              @ (if minute now < 10 then [PChar CHR ''0''] else [])
              @ [PInt (uint (minute now)), PChar CHR '':'']
              @ (if second now < 10 then [PChar CHR ''0''] else [])
              @ [PInt (uint (second now)), PChar CHR '','', PFloat (ORPvalue s) 2,
                 PChar (CHR 0x0A)]
            \<and> count_list (drop (length (serial_tx s)) (serial_tx (logCheck now s)))
                  (PChar (CHR 0x0A)) = 1
            \<and> nextDataPoint (logCheck now s) = unixtime now + logFreq s)"
proof -
  have out: "serial_tx (logCheck now s) = serial_tx s @ log_record (ORPvalue s) now"
    and due: "nextDataPoint (logCheck now s) = unixtime now + logFreq s"
    if "nextDataPoint s \<le> unixtime now"
    using assms that by (simp_all add: logCheck_def LogData_def lcd_do_def Let_def)
  have one: "count_list (log_record (ORPvalue s) now) (PChar (CHR 0x0A)) = 1"
    using log_record_one_line [of "ORPvalue s" now] by (simp add: LF_def)
  have keep: "serial_tx (logCheck now s) = serial_tx s"
    "nextDataPoint (logCheck now s) = nextDataPoint s"
    if "unixtime now < nextDataPoint s"
    using assms that by (auto simp: logCheck_def LogData_def lcd_do_def Let_def)
  show ?thesis
  proof (intro conjI impI)
    assume "unixtime now < nextDataPoint s"
    then show "serial_tx (logCheck now s) = serial_tx s"
      and "nextDataPoint (logCheck now s) = nextDataPoint s"
      by (rule keep)+
  next
    assume d: "nextDataPoint s \<le> unixtime now"
    show "serial_tx (logCheck now s) = serial_tx s
              @ (if month now < 10 then [PChar CHR ''0''] else [])
              @ [PInt (uint (month now)), PChar CHR ''/'']
              @ (if day now < 10 then [PChar CHR ''0''] else [])
              @ [PInt (uint (day now)), PChar CHR ''/'', PInt (uint (year now)), PChar CHR '','']
              @ (if hour now < 10 then [PChar CHR ''0''] else [])
              @ [PInt (uint (hour now)), PChar CHR '':'']
              @ (if minute now < 10 then [PChar CHR ''0''] else [])
              @ [PInt (uint (minute now)), PChar CHR '':'']
              @ (if second now < 10 then [PChar CHR ''0''] else [])
              @ [PInt (uint (second now)), PChar CHR '','', PFloat (ORPvalue s) 2,
                 PChar (CHR 0x0A)]"
      unfolding out [OF d] log_record_items ..
    show "count_list (drop (length (serial_tx s)) (serial_tx (logCheck now s)))
        (PChar (CHR 0x0A)) = 1"
      unfolding out [OF d] using one by simp
    show "nextDataPoint (logCheck now s) = unixtime now + logFreq s"
      by (rule due [OF d])
  qed
qed

text \<open>Logging switched on at 12:30:05 with the frequency 5, which prints a first record:
  a check in the same second emits nothing; a check five seconds later emits the record
  03/09/2014,12:30:10,0.00 and moves the due time on.\<close>

theorem logCheck_due_after_toggle:
  "logData (toggleLogging a_time idle_board)
   \<and> nextDataPoint (toggleLogging a_time idle_board) = 1394368210
   \<and> serial_tx (logCheck a_time (toggleLogging a_time idle_board))
       = serial_tx (toggleLogging a_time idle_board)
   \<and> nextDataPoint (logCheck a_time (toggleLogging a_time idle_board)) = 1394368210
   \<and> serial_tx (logCheck (a_time\<lparr>second := 10, unixtime := 1394368210\<rparr>)
         (toggleLogging a_time idle_board))
       = serial_tx (toggleLogging a_time idle_board)
         @ [PChar CHR ''0'', PInt 3, PChar CHR ''/'', PChar CHR ''0'', PInt 9, PChar CHR ''/'',
            PInt 2014, PChar CHR '','', PInt 12, PChar CHR '':'', PInt 30, PChar CHR '':'',
            PInt 10, PChar CHR '','', PFloat 0 2, PChar (CHR 0x0A)]
   \<and> nextDataPoint (logCheck (a_time\<lparr>second := 10, unixtime := 1394368210\<rparr>)
         (toggleLogging a_time idle_board)) = 1394368215"
proof -
  let ?s = "toggleLogging a_time idle_board"
  let ?later = "a_time\<lparr>second := 10, unixtime := 1394368210\<rparr>"
  have on: "logData ?s"
    by (simp add: steps fresh_board)
  have s: "nextDataPoint ?s = 1394368210" "logFreq ?s = 5" "ORPvalue ?s = 0"
    by (simp_all add: steps fresh_board a_time_def)
  have t: "unixtime a_time < nextDataPoint ?s" "nextDataPoint ?s \<le> unixtime ?later"
    unfolding s(1) by (simp_all add: a_time_def)
  have fields: "month ?later = 3" "day ?later = 9" "year ?later = 2014" "hour ?later = 12"
    "minute ?later = 30" "second ?later = 10" "unixtime ?later = 1394368210"
    by (simp_all add: a_time_def)
  from logCheck_due [OF on, of a_time] logCheck_due [OF on, of ?later] t on s
  show ?thesis
    by (simp add: fields)
qed

section \<open>Loops that wait for a button\<close>

text \<open>A loop whose test first fails after the pass \<open>k\<close> returns the state that pass left.\<close>

lemma do_while_first:
  "(\<And>j. j < k \<Longrightarrow> again (fst (body (cycles body j s)))) \<Longrightarrow>
   \<not> again (fst (body (cycles body k s))) \<Longrightarrow>
   do_while body again s = Some (snd (body (cycles body k s)))"
proof (induction k arbitrary: s)
  case 0
  then show ?case by (subst do_while.simps) (simp add: case_prod_beta)
next
  case (Suc k)
  have a: "again (fst (body s))" using Suc.prems(1) [of 0] by simp
  have "do_while body again (snd (body s)) = Some (snd (body (cycles body k (snd (body s)))))"
  proof (rule Suc.IH)
    fix j assume "j < k"
    then show "again (fst (body (cycles body j (snd (body s)))))"
      using Suc.prems(1) [of "Suc j"] by simp
  next
    show "\<not> again (fst (body (cycles body k (snd (body s)))))"
      using Suc.prems(2) by simp
  qed
  with a show ?case by (subst do_while.simps) (simp add: case_prod_beta)
qed

text \<open>Conversely, a loop that returns has had such a pass.\<close>

lemma do_while_Some:
  assumes "do_while body again s = Some t"
  shows "\<exists>k. (\<forall>j<k. again (fst (body (cycles body j s)))) \<and> \<not> again (fst (body (cycles body k s)))
      \<and> t = snd (body (cycles body k s))"
proof (rule do_while.raw_induct [where P = "\<lambda>body again s t.
    \<exists>k. (\<forall>j<k. again (fst (body (cycles body j s)))) \<and> \<not> again (fst (body (cycles body k s)))
      \<and> t = snd (body (cycles body k s))", OF _ assms])
  fix dw :: "('a \<Rightarrow> 'b \<times> 'a) \<Rightarrow> ('b \<Rightarrow> bool) \<Rightarrow> 'a \<Rightarrow> 'a option" and body again s t
  assume 1: "\<And>body again s t. dw body again s = Some t \<Longrightarrow>
      \<exists>k. (\<forall>j<k. again (fst (body (cycles body j s)))) \<and> \<not> again (fst (body (cycles body k s)))
        \<and> t = snd (body (cycles body k s))"
    "(case body s of (b, s') \<Rightarrow> if again b then dw body again s' else Some s') = Some t"
  show "\<exists>k. (\<forall>j<k. again (fst (body (cycles body j s)))) \<and> \<not> again (fst (body (cycles body k s)))
      \<and> t = snd (body (cycles body k s))"
  proof (cases "again (fst (body s))")
    case True
    then have "dw body again (snd (body s)) = Some t"
      using 1(2) by (simp add: case_prod_beta)
    from 1(1) [OF this] obtain k where
      k: "\<forall>j<k. again (fst (body (cycles body j (snd (body s)))))"
         "\<not> again (fst (body (cycles body k (snd (body s)))))"
         "t = snd (body (cycles body k (snd (body s))))"
      by blast
    have "\<forall>j<Suc k. again (fst (body (cycles body j s)))"
    proof (intro allI impI)
      fix j assume "j < Suc k"
      then show "again (fst (body (cycles body j s)))"
        using True k(1) by (cases j) auto
    qed
    with k(2,3) show ?thesis
      by (intro exI [of _ "Suc k"]) simp
  next
    case False
    then have "t = snd (body s)"
      using 1(2) by (simp add: case_prod_beta)
    with False show ?thesis
      by (intro exI [of _ 0]) simp
  qed
qed

lemma cycles_invariant:
  "I s \<Longrightarrow> (\<And>u. I u \<Longrightarrow> I (snd (body u))) \<Longrightarrow> I (cycles body k s)"
  by (induction k arbitrary: s) simp_all

lemma do_while_invariant:
  assumes "do_while body again s = Some t" and "I s" and "\<And>u. I u \<Longrightarrow> I (snd (body u))"
  shows "I t"
proof -
  from do_while_Some [OF assms(1)] obtain k where "t = snd (body (cycles body k s))"
    by blast
  with cycles_invariant [of I s body k] assms(2,3) show ?thesis by simp
qed

text \<open>Each pass of the two sub-loops reads the buttons once.\<close>

lemma cycles_adc:
  assumes "\<And>u. adc_n (snd (body u)) = Suc (adc_n u) \<and> adc_in (snd (body u)) = adc_in u"
  shows "adc_n (cycles body k s) = adc_n s + k \<and> adc_in (cycles body k s) = adc_in s"
  by (induction k arbitrary: s) (simp_all add: assms)

lemma cycles_sampled:
  assumes "\<And>u. adc_n (snd (body u)) = Suc (adc_n u) \<and> adc_in (snd (body u)) = adc_in u"
  shows "sampled (cycles body k s) 0 = sampled s k"
  using cycles_adc [of body k s, OF assms] by (simp add: sampled_def)

section \<open>The range of the counter\<close>

lemma counter_ok_range: "counter_ok s \<Longrightarrow> 1 \<le> counter s \<and> counter s \<le> 4"
  unfolding counter_ok_def by auto

lemma average_counter: "counter_ok s \<Longrightarrow> counter_ok (average P s)"
  unfolding counter_ok_def by (auto simp: steps split: option.split)

lemma calibration_cycle_counter: "counter_ok s \<Longrightarrow> counter_ok (snd (calibration_cycle P s))"
  using average_counter [of s P]
  by (simp add: calibration_cycle_def counter_ok_def ReadButtons_def showORP_def lcd_do_def
      orp_print_def Let_def split: prod.split)

lemma setLogFreq_cycle_counter: "counter (snd (setLogFreq_cycle s)) = counter s"
  by (simp add: setLogFreq_cycle_def ReadButtons_def lcd_do_def Let_def split: prod.split)

lemma calibration_entry_counter: "counter (calibration_entry s) = counter s"
  by (simp add: calibration_entry_def lcd_do_def orp_print_def)

lemma dispatch_counter:
  assumes "dispatch P now b s = Some t" and "counter_ok s"
  shows "counter_ok t"
proof (cases b)
  case RIGHT
  with assms(1) obtain u where
    u: "do_while (calibration_cycle P) (\<lambda>b. b \<noteq> LEFT) (calibration_entry s) = Some u"
    and t: "t = orp_print (CHR ''E'' # [CR]) u"
    by (auto simp: dispatch_def startCalibration_def)
  have "counter_ok (calibration_entry s)"
    using assms(2) by (simp add: counter_ok_def calibration_entry_counter)
  from do_while_invariant [of "calibration_cycle P" _ _ u counter_ok, OF u this]
  have "counter_ok u" by (simp add: calibration_cycle_counter)
  then show ?thesis by (simp add: t counter_ok_def orp_print_def)
next
  case LEFT
  with assms(1) have u: "do_while setLogFreq_cycle (\<lambda>b. b \<noteq> RIGHT) s = Some t"
    by (simp add: dispatch_def setLogFreq_def)
  from do_while_invariant [of setLogFreq_cycle _ _ t counter_ok, OF u assms(2)]
  show ?thesis by (simp add: counter_ok_def setLogFreq_cycle_counter)
next
  case SELECT
  with assms show ?thesis by (auto simp: dispatch_def counter_ok_def toggle_frame)
qed (use assms in \<open>auto simp: dispatch_def\<close>)

lemma finish_counter: "counter_ok s \<Longrightarrow> counter_ok (finish P now s)"
  using average_counter [of s P]
  by (simp add: finish_def counter_ok_def logCheck_def LogData_def showORP_def lcd_do_def Let_def)

lemma loop_counter:
  assumes "loop P now s = Some t" and "counter_ok s"
  shows "counter_ok t"
proof -
  obtain b s1 where p: "poll now s = (b, s1)" by (cases "poll now s")
  have "counter_ok s1" using poll_frame [of now s] p assms(2) by (simp add: counter_ok_def)
  moreover from assms(1) p obtain u where "dispatch P now b s1 = Some u" "t = finish P now u"
    by (auto simp: loop_def)
  ultimately show ?thesis
    using dispatch_counter finish_counter by blast
qed

lemma run_loop_counter:
  "run_loop P nows s = Some t \<Longrightarrow> counter_ok s \<Longrightarrow> counter_ok t"
proof (induction nows arbitrary: s)
  case Nil
  then show ?case by simp
next
  case (Cons now nows)
  then obtain u where "loop P now s = Some u" "run_loop P nows u = Some t"
    by (auto simp: bind_eq_Some_conv)
  with Cons loop_counter show ?case by blast
qed

lemma booted_counter: "counter_ok (booted adc rx)"
  by (simp add: counter_ok_def booted_def setup_sketch_def power_on_def lcd_do_def orp_print_def)

text \<open>Three cycles on the idle board: three readings folded, the counter at 4.\<close>

lemma three_idle_cycles:
  "map_option counter (run_loop a_platform [a_time, a_time, a_time] idle_board) = Some 4"
  by (simp add: loop_def poll_def dispatch_def finish_def steps fresh_board button_of_bands)

text \<open>
  Claim C5 bounds the counter by 3 at every cycle boundary. After three cycles of the
  main loop the counter is 4: the branch \<open>counter < 4\<close> folds a reading at 1, 2 and 3 and
  increments each time, and only the fourth cycle sets the counter back to 1.
\<close>

theorem counter_reaches_4:
  "map_option (\<lambda>s. 1 \<le> counter s \<and> counter s \<le> 3)
     (run_loop a_platform [a_time, a_time, a_time] idle_board) = Some False"
proof -
  from three_idle_cycles obtain s where
    "run_loop a_platform [a_time, a_time, a_time] idle_board = Some s" "counter s = 4"
    by auto
  then show ?thesis by simp
qed

text \<open>
  Claim C5 with the bound the sketch keeps: after any number of cycles of the main loop
  from the booted board the counter is between 1 and 4, and so it is after any number of
  passes through the calibration loop or through the log frequency loop entered from
  there. In such a state the averaging step increments a counter below 4 (the folds at 1,
  2 and 3); at 4 it reads no sensor data, sets the counter back to 1 and publishes the
  average as it stands.
\<close>

theorem counter_range:
  assumes "run_loop P nows (booted adc rx) = Some s"
  shows "1 \<le> counter s \<and> counter s \<le> 4
    \<and> (\<forall>now k. 1 \<le> counter (cycles (calibration_cycle P) k (calibration_entry (snd (poll now s))))
         \<and> counter (cycles (calibration_cycle P) k (calibration_entry (snd (poll now s)))) \<le> 4)
    \<and> (\<forall>now k. 1 \<le> counter (cycles setLogFreq_cycle k (snd (poll now s)))
         \<and> counter (cycles setLogFreq_cycle k (snd (poll now s))) \<le> 4)
    \<and> (counter s < 4 \<longrightarrow> counter (average P s) = counter s + 1)
    \<and> (counter s = 4 \<longrightarrow>
          counter (average P s) = 1 \<and> ORPvalue (average P s) = avgORP s
          \<and> avgORP (average P s) = avgORP s \<and> orp_n (average P s) = orp_n s
          \<and> orp_tx (average P s) = orp_tx s)"
proof -
  have m: "counter s < 4 \<longrightarrow> counter (average P s) = counter s + 1"
    "counter s = 4 \<longrightarrow>
          counter (average P s) = 1 \<and> ORPvalue (average P s) = avgORP s
          \<and> avgORP (average P s) = avgORP s \<and> orp_n (average P s) = orp_n s
          \<and> orp_tx (average P s) = orp_tx s"
    by (simp_all add: steps split: option.split)
  have s: "counter_ok s"
    using run_loop_counter [OF assms booted_counter] .
  have p: "counter_ok (snd (poll now s))" for now
    using poll_frame [of now s] s by (simp add: counter_ok_def)
  have e: "counter_ok (calibration_entry (snd (poll now s)))" for now
    using p [of now] by (simp add: counter_ok_def calibration_entry_counter)
  have c: "counter_ok (cycles (calibration_cycle P) k (calibration_entry (snd (poll now s))))"
    for now k
    using cycles_invariant [of counter_ok _ "calibration_cycle P" k, OF e]
    by (simp add: calibration_cycle_counter)
  have f: "counter_ok (cycles setLogFreq_cycle k (snd (poll now s)))" for now k
    using cycles_invariant [of counter_ok _ setLogFreq_cycle k, OF p]
    by (simp add: counter_ok_def setLogFreq_cycle_counter)
  show ?thesis
    using counter_ok_range [OF s] counter_ok_range [OF c] counter_ok_range [OF f] m by blast
qed

text \<open>Three cycles on the idle board end with the counter at 4, within the range, and
  three passes through a calibration loop entered then keep it there; the next averaging
  step sets it back to 1 and publishes.\<close>

theorem counter_range_idle_board:
  "\<exists>s. run_loop a_platform [a_time, a_time, a_time] idle_board = Some s \<and> counter s = 4
     \<and> 1 \<le> counter s \<and> counter s \<le> 4
     \<and> counter (average a_platform s) = 1 \<and> ORPvalue (average a_platform s) = avgORP s
     \<and> 1 \<le> counter (cycles (calibration_cycle a_platform) 3
               (calibration_entry (snd (poll a_time s))))
     \<and> counter (cycles (calibration_cycle a_platform) 3
               (calibration_entry (snd (poll a_time s)))) \<le> 4"
proof -
  from three_idle_cycles obtain s where
    s: "run_loop a_platform [a_time, a_time, a_time] idle_board = Some s" "counter s = 4"
    by auto
  from s(1) have "run_loop a_platform [a_time, a_time, a_time]
      (booted (\<lambda>_. 1023) (\<lambda>_. None)) = Some s"
    by (simp only: idle_board_def)
  from counter_range [OF this] s show ?thesis
    by blast
qed

section \<open>The edge flags and the dispatch on the sampled button\<close>

text \<open>
  Claim C6 says that both edge flags are false once the dispatch of a cycle is over. On a
  board where \<open>UP\<close> is pressed (the ladder reads 145) the first cycle ends with
  \<open>buttonJustPressed\<close> still true: the statements that reset the flags stand in the switch
  block behind the \<open>break\<close> of \<open>default\<close> and are never executed.
\<close>

theorem justPressed_survives_cycle:
  "map_option buttonJustPressed (loop a_platform a_time (booted (\<lambda>_. 145) (\<lambda>_. None)))
     = Some True"
  by (simp add: loop_def poll_def dispatch_def finish_def steps booted_def setup_sketch_def
      power_on_def button_of_bands)

text \<open>A cycle that samples \<open>SELECT\<close> toggles \<open>logData\<close>, whatever the previous sample and the
  edge flags are.\<close>

lemma select_cycle:
  assumes "sampled s 0 = SELECT"
  shows "\<exists>t. loop P now s = Some t \<and> logData t = (\<not> logData s) \<and> adc_n t = Suc (adc_n s)
    \<and> adc_in t = adc_in s"
proof -
  obtain b s1 where p: "poll now s = (b, s1)" by (cases "poll now s")
  have b: "b = SELECT" using poll_button [of now s] p assms by simp
  have f: "adc_n s1 = Suc (adc_n s)" "adc_in s1 = adc_in s" "logData s1 = logData s"
    using poll_frame [of now s] p by simp_all
  have "loop P now s = Some (finish P now (toggleLogging now s1))"
    by (simp add: loop_def p b dispatch_def)
  then show ?thesis
    by (simp add: finish_frame toggle_frame f)
qed

lemma select_cycles:
  "(\<And>j. j < length nows \<Longrightarrow> sampled s j = SELECT) \<Longrightarrow>
   \<exists>t. run_loop P nows s = Some t
     \<and> logData t = (if even (length nows) then logData s else \<not> logData s)
     \<and> adc_n t = adc_n s + length nows \<and> adc_in t = adc_in s"
proof (induction nows arbitrary: s)
  case Nil
  then show ?case by simp
next
  case (Cons now nows)
  have "sampled s 0 = SELECT"
    using Cons.prems [of 0] by simp
  from select_cycle [OF this, of P now] obtain t where
    t: "loop P now s = Some t" "logData t = (\<not> logData s)" "adc_n t = Suc (adc_n s)"
       "adc_in t = adc_in s"
    by blast
  have "sampled t j = SELECT" if "j < length nows" for j
    using Cons.prems [of "Suc j"] that by (simp add: sampled_def t(3,4))
  from Cons.IH [OF this] obtain u where
    u: "run_loop P nows t = Some u"
       "logData u = (if even (length nows) then logData t else \<not> logData t)"
       "adc_n u = adc_n t + length nows" "adc_in u = adc_in t"
    by blast
  show ?case
    using t u by simp
qed

text \<open>
  Claim C10: the dispatch follows the button sampled in the cycle, not the press edge. A
  cycle runs the case of the switch for the button it samples, whatever the previous
  sample and the edge flags are. When \<open>SELECT\<close> is sampled in each of \<open>k\<close> consecutive
  cycles, every one of them returns and toggles \<open>logData\<close>, so logging ends toggled \<open>k\<close>
  times: in its original state for an even \<open>k\<close> (two cycles in particular), inverted for
  an odd one.
\<close>

theorem select_level_triggered:
  "loop P now s = map_option (finish P now) (dispatch P now (sampled s 0) (snd (poll now s)))
   \<and> ((\<forall>j<length nows. sampled s j = SELECT) \<longrightarrow>
        (\<exists>t. run_loop P nows s = Some t
           \<and> logData t = (if even (length nows) then logData s else \<not> logData s)))"
proof -
  have "loop P now s = map_option (finish P now) (dispatch P now (sampled s 0) (snd (poll now s)))"
    using poll_button [of now s] by (simp add: loop_def case_prod_beta)
  then show ?thesis
    using select_cycles [of nows s P] by blast
qed

text \<open>\<open>SELECT\<close> held (the ladder reads 741) over two cycles: logging is off before, on
  after the first cycle and off again after the second, where the previous sample is
  \<open>SELECT\<close> already.\<close>

theorem select_held_two_cycles:
  "sampled (booted (\<lambda>_. 741) (\<lambda>_. None)) 0 = SELECT
   \<and> sampled (booted (\<lambda>_. 741) (\<lambda>_. None)) 1 = SELECT
   \<and> logData (booted (\<lambda>_. 741) (\<lambda>_. None)) = False
   \<and> map_option logData (run_loop a_platform [a_time] (booted (\<lambda>_. 741) (\<lambda>_. None)))
       = Some True
   \<and> map_option buttonWas (run_loop a_platform [a_time] (booted (\<lambda>_. 741) (\<lambda>_. None)))
       = Some SELECT
   \<and> map_option logData (run_loop a_platform [a_time, a_time] (booted (\<lambda>_. 741) (\<lambda>_. None)))
       = Some False"
proof -
  let ?s = "booted (\<lambda>_. 741) (\<lambda>_. None)"
  have smp: "sampled ?s j = SELECT" for j
    by (simp add: sampled_def booted_def setup_sketch_def power_on_def lcd_do_def orp_print_def
        button_of_bands)
  have off: "logData ?s = False"
    by (simp add: booted_def setup_sketch_def power_on_def lcd_do_def orp_print_def)
  have was: "map_option buttonWas (run_loop a_platform [a_time] ?s) = Some SELECT"
    by (simp add: loop_def poll_def dispatch_def finish_def steps booted_def setup_sketch_def
        power_on_def button_of_bands)
  have h: "\<forall>j<length [a_time]. sampled ?s j = SELECT"
    "\<forall>j<length [a_time, a_time]. sampled ?s j = SELECT"
    using smp by simp_all
  have one: "\<exists>t. run_loop a_platform [a_time] ?s = Some t
      \<and> logData t = (if even (length [a_time]) then logData ?s else \<not> logData ?s)"
    using select_level_triggered [of a_platform a_time ?s "[a_time]"] h(1) by blast
  have two: "\<exists>t. run_loop a_platform [a_time, a_time] ?s = Some t
      \<and> logData t = (if even (length [a_time, a_time]) then logData ?s else \<not> logData ?s)"
    using select_level_triggered [of a_platform a_time ?s "[a_time, a_time]"] h(2) by blast
  from one two smp off was show ?thesis
    by auto
qed

section \<open>The calibration session\<close>

lemma calibration_cycle_button: "fst (calibration_cycle P s) = sampled s 0"
  by (simp add: calibration_cycle_def sampled_def ReadButtons_def showORP_def lcd_do_def
      average_adc Let_def split: prod.split)

lemma calibration_cycle_adc:
  "adc_n (snd (calibration_cycle P s)) = Suc (adc_n s)
   \<and> adc_in (snd (calibration_cycle P s)) = adc_in s"
  by (simp add: calibration_cycle_def ReadButtons_def showORP_def lcd_do_def orp_print_def
      average_adc Let_def split: prod.split)

lemma calibration_cycle_tx:
  "orp_tx (snd (calibration_cycle P s)) = orp_tx (average P s) @ calibration_command (sampled s 0)"
  by (simp add: calibration_cycle_def sampled_def ReadButtons_def showORP_def lcd_do_def
      orp_print_def average_adc Let_def split: prod.split)

lemma calibration_cycle_tx_grows: "\<exists>m. orp_tx (snd (calibration_cycle P s)) = orp_tx s @ m"
  by (simp add: calibration_cycle_tx average_tx)

lemma cycles_tx:
  assumes "\<And>u. \<exists>m. orp_tx (snd (body u)) = orp_tx u @ m"
  shows "\<exists>m. orp_tx (cycles body k s) = orp_tx s @ m"
proof (induction k arbitrary: s)
  case 0
  show ?case by simp
next
  case (Suc k)
  from assms [of s] obtain m where "orp_tx (snd (body s)) = orp_tx s @ m" ..
  moreover from Suc [of "snd (body s)"] obtain n where
    "orp_tx (cycles body k (snd (body s))) = orp_tx (snd (body s)) @ n" ..
  ultimately show ?case by simp
qed

lemma calibration_entry_frame:
  "adc_n (calibration_entry s) = adc_n s \<and> adc_in (calibration_entry s) = adc_in s
   \<and> orp_tx (calibration_entry s) = orp_tx s @ CHR ''C'' # [CR]"
  by (simp add: calibration_entry_def lcd_do_def orp_print_def)

lemma calibration_nth_button:
  "fst (calibration_cycle P (cycles (calibration_cycle P) j (calibration_entry s))) = sampled s j"
proof -
  have "sampled (calibration_entry s) j = sampled s j"
    by (simp add: sampled_def calibration_entry_frame)
  with cycles_sampled [of "calibration_cycle P" j "calibration_entry s"] show ?thesis
    by (simp add: calibration_cycle_button calibration_cycle_adc)
qed

text \<open>The session returns exactly when \<open>LEFT\<close> is sampled, with the state of that pass and
  the exit command sent.\<close>

lemma startCalibration_iff:
  "startCalibration P s = Some t \<longleftrightarrow>
     (\<exists>k. sampled s k = LEFT \<and> (\<forall>j<k. sampled s j \<noteq> LEFT)
        \<and> t = orp_print (CHR ''E'' # [CR])
              (snd (calibration_cycle P (cycles (calibration_cycle P) k (calibration_entry s)))))"
  (is "?l \<longleftrightarrow> ?r")
proof
  assume ?l
  then obtain u where
    u: "do_while (calibration_cycle P) (\<lambda>b. b \<noteq> LEFT) (calibration_entry s) = Some u"
    and t: "t = orp_print (CHR ''E'' # [CR]) u"
    by (auto simp: startCalibration_def)
  from do_while_Some [OF u] show ?r
    by (auto simp: calibration_nth_button t)
next
  assume ?r
  then obtain k where k: "sampled s k = LEFT" "\<forall>j<k. sampled s j \<noteq> LEFT"
    "t = orp_print (CHR ''E'' # [CR])
           (snd (calibration_cycle P (cycles (calibration_cycle P) k (calibration_entry s))))"
    by blast
  have "do_while (calibration_cycle P) (\<lambda>b. b \<noteq> LEFT) (calibration_entry s)
      = Some (snd (calibration_cycle P (cycles (calibration_cycle P) k (calibration_entry s))))"
    by (rule do_while_first) (simp_all add: calibration_nth_button k)
  then show ?l
    by (simp add: startCalibration_def k(3))
qed

lemma startCalibration_tx:
  assumes "startCalibration P s = Some t"
  shows "\<exists>m. orp_tx t = orp_tx s @ CHR ''C'' # [CR] @ m @ CHR ''E'' # [CR]"
proof -
  from assms obtain k where t: "t = orp_print (CHR ''E'' # [CR])
      (snd (calibration_cycle P (cycles (calibration_cycle P) k (calibration_entry s))))"
    unfolding startCalibration_iff by blast
  let ?u = "cycles (calibration_cycle P) k (calibration_entry s)"
  from cycles_tx [of "calibration_cycle P" k "calibration_entry s"] obtain m where
    m: "orp_tx ?u = orp_tx (calibration_entry s) @ m"
    using calibration_cycle_tx_grows by blast
  from calibration_cycle_tx_grows [of P ?u] obtain n where
    n: "orp_tx (snd (calibration_cycle P ?u)) = orp_tx ?u @ n" ..
  have "orp_tx t = orp_tx s @ CHR ''C'' # [CR] @ (m @ n) @ CHR ''E'' # [CR]"
    by (simp add: t orp_print_def n m calibration_entry_frame)
  then show ?thesis ..
qed

lemma startCalibration_None:
  assumes "\<forall>k. sampled s k \<noteq> LEFT"
  shows "startCalibration P s = None"
proof (cases "startCalibration P s")
  case None
  then show ?thesis .
next
  case (Some t)
  then show ?thesis
    using assms unfolding startCalibration_iff by blast
qed

text \<open>
  Claim C8: \<open>RIGHT\<close> in the main loop starts the session, which first sends \<open>C\<close> and a
  carriage return. A pass of the session that samples \<open>UP\<close>, \<open>DOWN\<close> or \<open>SELECT\<close> sends
  \<open>+\<close>, \<open>-\<close> or \<open>X\<close> with a carriage return after the read command of its averaging step,
  and nothing for another button. The session returns if and only if \<open>LEFT\<close> is sampled:
  it returns from the first pass that samples it, with \<open>E\<close> and a carriage return sent
  last; when \<open>LEFT\<close> is never sampled it does not return (\<open>None\<close>).
\<close>

theorem calibration_session:
  "dispatch P now RIGHT s = startCalibration P s
   \<and> orp_tx (calibration_entry s) = orp_tx s @ CHR ''C'' # [CR]
   \<and> orp_tx (snd (calibration_cycle P u)) = orp_tx (average P u) @
        (if sampled u 0 = UP then CHR ''+'' # [CR]
         else if sampled u 0 = DOWN then CHR ''-'' # [CR]
         else if sampled u 0 = SELECT then CHR ''X'' # [CR] else [])
   \<and> (startCalibration P s = Some t \<longleftrightarrow>
        (\<exists>k. sampled s k = LEFT \<and> (\<forall>j<k. sampled s j \<noteq> LEFT)
           \<and> t = orp_print (CHR ''E'' # [CR])
                 (snd (calibration_cycle P
                    (cycles (calibration_cycle P) k (calibration_entry s))))))
   \<and> (startCalibration P s = Some t \<longrightarrow>
        (\<exists>m. orp_tx t = orp_tx s @ CHR ''C'' # [CR] @ m @ CHR ''E'' # [CR]))
   \<and> ((\<forall>k. sampled s k \<noteq> LEFT) \<longrightarrow> startCalibration P s = None)"
proof -
  have "dispatch P now RIGHT s = startCalibration P s"
    by (simp add: dispatch_def)
  moreover have "orp_tx (snd (calibration_cycle P u)) = orp_tx (average P u) @
        (if sampled u 0 = UP then CHR ''+'' # [CR]
         else if sampled u 0 = DOWN then CHR ''-'' # [CR]
         else if sampled u 0 = SELECT then CHR ''X'' # [CR] else [])"
    by (simp add: calibration_cycle_tx calibration_command_def)
  ultimately show ?thesis
    using startCalibration_iff [of P s t] startCalibration_tx [of P s t]
      startCalibration_None [of s P]
    by (simp add: calibration_entry_frame)
qed

text \<open>A session in which \<open>UP\<close> (145) is sampled, then \<open>LEFT\<close> (505): after the two
  commands of \<open>setup()\<close> the sensor receives C, R, +, R, E, each with a carriage return.\<close>

theorem calibration_session_up_left:
  "sampled (booted (\<lambda>n. if n = 0 then 145 else 505) (\<lambda>_. None)) 0 = UP
   \<and> sampled (booted (\<lambda>n. if n = 0 then 145 else 505) (\<lambda>_. None)) 1 = LEFT
   \<and> map_option orp_tx
       (startCalibration a_platform (booted (\<lambda>n. if n = 0 then 145 else 505) (\<lambda>_. None)))
     = Some [CHR ''e'', CR, CHR ''e'', CR, CHR ''C'', CR, CHR ''R'', CR, CHR ''+'', CR,
             CHR ''R'', CR, CHR ''E'', CR]"
proof -
  let ?s = "booted (\<lambda>n. if n = 0 then 145 else 505) (\<lambda>_. None)"
  let ?t = "orp_print (CHR ''E'' # [CR]) (snd (calibration_cycle a_platform
      (cycles (calibration_cycle a_platform) 1 (calibration_entry ?s))))"
  have smp: "sampled ?s 0 = UP" "sampled ?s 1 = LEFT"
    by (simp_all add: sampled_def booted_def setup_sketch_def power_on_def lcd_do_def
        orp_print_def button_of_bands)
  then have "sampled ?s 1 = LEFT \<and> (\<forall>j<1. sampled ?s j \<noteq> LEFT)"
    by simp
  then have "startCalibration a_platform ?s = Some ?t"
    using calibration_session [of a_platform a_time ?s ?s ?t] by blast
  moreover have "orp_tx ?t = [CHR ''e'', CR, CHR ''e'', CR, CHR ''C'', CR, CHR ''R'', CR,
      CHR ''+'', CR, CHR ''R'', CR, CHR ''E'', CR]"
    by (simp add: calibration_cycle_def calibration_entry_def calibration_command_def steps
        booted_def setup_sketch_def power_on_def button_of_bands)
  ultimately show ?thesis
    using smp by simp
qed

section \<open>The log frequency setter\<close>

lemma sless_5: "(w :: 32 word) <s 5 \<longleftrightarrow> sint w < 5"
  by (simp add: word_sless_alt)

lemma sint_add5:
  fixes w :: "32 word"
  assumes "sint w \<le> 2147483642"
  shows "sint (w + 5) = sint w + 5"
proof -
  have "- (2 ^ 31) \<le> sint w" using sint_ge [of w] by simp
  then show ?thesis
    using assms by (simp add: sint_word_ariths signed_take_bit_int_eq_self)
qed

lemma sint_sub5:
  fixes w :: "32 word"
  assumes "- 2147483643 \<le> sint w"
  shows "sint (w - 5) = sint w - 5"
proof -
  have "sint w < 2 ^ 31" using sint_lt [of w] by simp
  then show ?thesis
    using assms by (simp add: sint_word_ariths signed_take_bit_int_eq_self)
qed

lemma setLogFreq_cycle_logFreq:
  "logFreq (snd (setLogFreq_cycle s)) =
     (let f1 = (if sampled s 0 = UP then logFreq s + 5 else logFreq s);
          f2 = (if sampled s 0 = DOWN then f1 - 5 else f1)
      in if f2 <s 5 then 5 else f2)"
  by (simp add: setLogFreq_cycle_def sampled_def ReadButtons_def lcd_do_def Let_def
      split: prod.split)

lemma setLogFreq_cycle_clamped: "5 \<le> sint (logFreq (snd (setLogFreq_cycle s)))"
  by (simp add: setLogFreq_cycle_logFreq Let_def sless_5)

lemma setLogFreq_cycle_sint:
  assumes "5 \<le> sint (logFreq s)" and "sint (logFreq s) \<le> 2147483642"
  shows "sint (logFreq (snd (setLogFreq_cycle s))) =
     (if sampled s 0 = UP then sint (logFreq s) + 5
      else if sampled s 0 = DOWN then max 5 (sint (logFreq s) - 5)
      else sint (logFreq s))"
  using assms by (simp add: setLogFreq_cycle_logFreq Let_def sless_5 sint_add5 sint_sub5)

text \<open>A pass writes the prompt and the interval to the display and nothing to the two
  serial ports, clamped or not.\<close>

lemma setLogFreq_cycle_output:
  "serial_tx (snd (setLogFreq_cycle s)) = serial_tx s
   \<and> orp_tx (snd (setLogFreq_cycle s)) = orp_tx s
   \<and> lcd (snd (setLogFreq_cycle s)) = lcd s @
       [Clear, SetCursor 0 0, Print (PStr ''Set log freq''), SetCursor 0 1,
        Print (PStr ''RT=EXIT''), SetCursor 13 1, Print (PStr ''sec''),
        SetCursor (if sint (logFreq (snd (setLogFreq_cycle s))) < 10 then 11
                   else if sint (logFreq (snd (setLogFreq_cycle s))) < 100 then 10 else 9) 1,
        Print (PInt (sint (logFreq (snd (setLogFreq_cycle s)))))]"
  by (simp add: setLogFreq_cycle_def ReadButtons_def lcd_do_def Let_def word_sless_alt
      split: prod.split)

lemma setLogFreq_cycle_button: "fst (setLogFreq_cycle s) = sampled s 0"
  by (simp add: setLogFreq_cycle_def sampled_def ReadButtons_def lcd_do_def Let_def
      split: prod.split)

lemma setLogFreq_cycle_adc:
  "adc_n (snd (setLogFreq_cycle s)) = Suc (adc_n s)
   \<and> adc_in (snd (setLogFreq_cycle s)) = adc_in s"
  by (simp add: setLogFreq_cycle_def ReadButtons_def lcd_do_def Let_def split: prod.split)

lemma setLogFreq_nth_button:
  "fst (setLogFreq_cycle (cycles setLogFreq_cycle j s)) = sampled s j"
  using cycles_sampled [of setLogFreq_cycle j s]
  by (simp add: setLogFreq_cycle_button setLogFreq_cycle_adc)

lemma setLogFreq_iff:
  "setLogFreq s = Some t \<longleftrightarrow>
     (\<exists>k. sampled s k = RIGHT \<and> (\<forall>j<k. sampled s j \<noteq> RIGHT)
        \<and> t = snd (setLogFreq_cycle (cycles setLogFreq_cycle k s)))"
  (is "?l \<longleftrightarrow> ?r")
proof
  assume ?l
  then have "do_while setLogFreq_cycle (\<lambda>b. b \<noteq> RIGHT) s = Some t"
    by (simp add: setLogFreq_def)
  from do_while_Some [OF this] show ?r
    by (auto simp: setLogFreq_nth_button)
next
  assume ?r
  then obtain k where k: "sampled s k = RIGHT" "\<forall>j<k. sampled s j \<noteq> RIGHT"
    "t = snd (setLogFreq_cycle (cycles setLogFreq_cycle k s))"
    by blast
  have "do_while setLogFreq_cycle (\<lambda>b. b \<noteq> RIGHT) s
      = Some (snd (setLogFreq_cycle (cycles setLogFreq_cycle k s)))"
    by (rule do_while_first) (simp_all add: setLogFreq_nth_button k)
  then show ?l
    by (simp add: setLogFreq_def k(3))
qed

lemma setLogFreq_None:
  assumes "\<forall>k. sampled s k \<noteq> RIGHT"
  shows "setLogFreq s = None"
proof (cases "setLogFreq s")
  case None
  then show ?thesis .
next
  case (Some t)
  then show ?thesis
    using assms unfolding setLogFreq_iff by blast
qed

text \<open>
  Claim C9: in a pass of the setter with an interval \<open>f\<close> of at least 5 (and at most
  2147483642, so that \<open>f + 5\<close> is a \<open>long\<close>), \<open>UP\<close> gives \<open>f + 5\<close>, \<open>DOWN\<close> gives
  \<open>f - 5\<close> but not less than 5, and any other button keeps \<open>f\<close>; after every pass the
  interval is at least 5. The pass writes only the prompt and the interval to the display
  and nothing to the serial ports, so that a clamped value is not reported. The setter
  returns if and only if \<open>RIGHT\<close> is sampled, from the first pass that samples it; when
  \<open>RIGHT\<close> is never sampled it does not return.
\<close>

theorem setLogFreq_session:
  "(5 \<le> sint (logFreq u) \<and> sint (logFreq u) \<le> 2147483642 \<longrightarrow>
      sint (logFreq (snd (setLogFreq_cycle u))) =
        (if sampled u 0 = UP then sint (logFreq u) + 5
         else if sampled u 0 = DOWN then max 5 (sint (logFreq u) - 5)
         else sint (logFreq u)))
   \<and> 5 \<le> sint (logFreq (snd (setLogFreq_cycle u)))
   \<and> serial_tx (snd (setLogFreq_cycle u)) = serial_tx u
   \<and> orp_tx (snd (setLogFreq_cycle u)) = orp_tx u
   \<and> lcd (snd (setLogFreq_cycle u)) = lcd u @
       [Clear, SetCursor 0 0, Print (PStr ''Set log freq''), SetCursor 0 1,
        Print (PStr ''RT=EXIT''), SetCursor 13 1, Print (PStr ''sec''),
        SetCursor (if sint (logFreq (snd (setLogFreq_cycle u))) < 10 then 11
                   else if sint (logFreq (snd (setLogFreq_cycle u))) < 100 then 10 else 9) 1,
        Print (PInt (sint (logFreq (snd (setLogFreq_cycle u)))))]
   \<and> (setLogFreq s = Some t \<longleftrightarrow>
        (\<exists>k. sampled s k = RIGHT \<and> (\<forall>j<k. sampled s j \<noteq> RIGHT)
           \<and> t = snd (setLogFreq_cycle (cycles setLogFreq_cycle k s))))
   \<and> ((\<forall>k. sampled s k \<noteq> RIGHT) \<longrightarrow> setLogFreq s = None)"
  using setLogFreq_cycle_sint [of u] setLogFreq_cycle_clamped [of u]
    setLogFreq_cycle_output [of u] setLogFreq_iff [of s t] setLogFreq_None [of s]
  by blast

text \<open>From the booted board (interval 5): \<open>DOWN\<close> (329) keeps 5, \<open>UP\<close> (145) then gives 10,
  and \<open>RIGHT\<close> (0) ends the setter with the interval 10.\<close>

theorem setLogFreq_down_up_right:
  "sampled (booted (\<lambda>n. if n = 0 then 329 else if n = 1 then 145 else 0) (\<lambda>_. None)) 0 = DOWN
   \<and> sampled (booted (\<lambda>n. if n = 0 then 329 else if n = 1 then 145 else 0) (\<lambda>_. None)) 1 = UP
   \<and> sampled (booted (\<lambda>n. if n = 0 then 329 else if n = 1 then 145 else 0) (\<lambda>_. None)) 2 = RIGHT
   \<and> sint (logFreq (booted (\<lambda>n. if n = 0 then 329 else if n = 1 then 145 else 0) (\<lambda>_. None))) = 5
   \<and> sint (logFreq (snd (setLogFreq_cycle
        (booted (\<lambda>n. if n = 0 then 329 else if n = 1 then 145 else 0) (\<lambda>_. None))))) = 5
   \<and> map_option (\<lambda>t. sint (logFreq t))
        (setLogFreq (booted (\<lambda>n. if n = 0 then 329 else if n = 1 then 145 else 0) (\<lambda>_. None)))
      = Some 10"
proof -
  let ?s = "booted (\<lambda>n. if n = 0 then 329 else if n = 1 then 145 else 0) (\<lambda>_. None)"
  let ?s1 = "snd (setLogFreq_cycle ?s)"
  let ?s2 = "snd (setLogFreq_cycle ?s1)"
  let ?t = "snd (setLogFreq_cycle (cycles setLogFreq_cycle 2 ?s))"
  have smp: "sampled ?s 0 = DOWN" "sampled ?s 1 = UP" "sampled ?s 2 = RIGHT"
    by (simp_all add: sampled_def booted_def setup_sketch_def power_on_def lcd_do_def
        orp_print_def button_of_bands)
  have f0: "sint (logFreq ?s) = 5"
    by (simp add: booted_def setup_sketch_def power_on_def lcd_do_def orp_print_def)
  have f1: "sint (logFreq ?s1) = 5"
    using setLogFreq_session [of ?s ?s ?t] smp f0 by simp
  have "sampled ?s1 0 = UP"
    using cycles_sampled [of setLogFreq_cycle 1 ?s] smp(2) by (simp add: setLogFreq_cycle_adc)
  then have f2: "sint (logFreq ?s2) = 10"
    using setLogFreq_session [of ?s1 ?s ?t] f1 by simp
  have "sampled ?s2 0 = RIGHT"
    using cycles_sampled [of setLogFreq_cycle 2 ?s] smp(3)
    by (simp add: setLogFreq_cycle_adc numeral_2_eq_2)
  then have f3: "sint (logFreq (snd (setLogFreq_cycle ?s2))) = 10"
    using setLogFreq_session [of ?s2 ?s ?t] f2 by simp
  have "sampled ?s 2 = RIGHT \<and> (\<forall>j<2. sampled ?s j \<noteq> RIGHT)"
    using smp by (simp add: less_2_cases_iff)
  then have "setLogFreq ?s = Some ?t"
    using setLogFreq_session [of ?s ?s ?t] by blast
  then show ?thesis
    using smp f0 f1 f3 by (simp add: numeral_2_eq_2)
qed

end
